theory Spec2Isabelle
  imports Complex_Main "HOL-Library.Sublist"
begin

section \<open>Strings\<close>

text \<open>
  A Python \<open>str\<close> is modelled as a \<open>string\<close>: the list of its code points, for
  code points below 256. \<open>len\<close> is \<open>length\<close>.
\<close>

definition is_space :: "char \<Rightarrow> bool" where
  \<comment> \<open>\<open>str.isspace\<close> on one character: the characters \<open>strip()\<close> and \<open>split()\<close> drop.\<close>
  "is_space c =
     (let n = (of_char c :: nat)
      in (9 \<le> n \<and> n \<le> 13) \<or> (28 \<le> n \<and> n \<le> 32) \<or> n = 133 \<or> n = 160)"

definition strip :: "string \<Rightarrow> string" where
  \<comment> \<open>\<open>s.strip()\<close>\<close>
  "strip s = rev (dropWhile is_space (rev (dropWhile is_space s)))"

fun split_blank :: "string \<Rightarrow> string list" where
  \<comment> \<open>\<open>s.split('\n\n')\<close>: left to right, separators do not overlap.\<close>
  "split_blank [] = [[]]"
| "split_blank [a] = [[a]]"
| "split_blank (a # b # cs) =
     (if a = CHR ''\<newline>'' \<and> b = CHR ''\<newline>'' then [] # split_blank cs
      else (case split_blank (b # cs) of
              [] \<Rightarrow> [[a]]
            | w # ws \<Rightarrow> (a # w) # ws))"

fun split_ws :: "string \<Rightarrow> string list" where
  \<comment> \<open>\<open>s.split()\<close>: the maximal runs of non-whitespace characters.\<close>
  "split_ws [] = []"
| "split_ws (c # cs) =
     (if is_space c then split_ws cs
      else (case cs of
              [] \<Rightarrow> [[c]]
            | d # _ \<Rightarrow>
                if is_space d then [c] # split_ws cs
                else (case split_ws cs of
                        [] \<Rightarrow> [[c]]
                      | w # ws \<Rightarrow> (c # w) # ws)))"

fun join :: "string \<Rightarrow> string list \<Rightarrow> string" where
  \<comment> \<open>\<open>sep.join(xs)\<close>\<close>
  "join sep [] = []"
| "join sep [x] = x"
| "join sep (x # y # ys) = x @ sep @ join sep (y # ys)"

definition slice_from :: "'a list \<Rightarrow> int \<Rightarrow> 'a list" where
  \<comment> \<open>\<open>xs[k:]\<close>: a negative \<open>k\<close> counts from the end, and both ends are clamped.\<close>
  "slice_from xs k =
     (if k < 0 then drop (nat (max (int (length xs) + k) 0)) xs else drop (nat k) xs)"

definition digit_char :: "nat \<Rightarrow> char" where
  "digit_char d = ''0123456789'' ! d"

function str_nat :: "nat \<Rightarrow> string" where
  "str_nat n = (if n < 10 then [digit_char n] else str_nat (n div 10) @ [digit_char (n mod 10)])"
  by pat_completeness auto
termination
  by (relation "measure (\<lambda>n. n)") auto

declare str_nat.simps [simp del]

definition str_int :: "int \<Rightarrow> string" where
  \<comment> \<open>\<open>str(i)\<close> for a Python int.\<close>
  "str_int i = (if i < 0 then CHR ''-'' # str_nat (nat (- i)) else str_nat (nat i))"

definition digit_val :: "char \<Rightarrow> nat" where
  \<comment> \<open>The value of a decimal digit.\<close>
  "digit_val c = (of_char c :: nat) - 48"

definition nat_of_str :: "string \<Rightarrow> nat" where
  \<comment> \<open>The number a string of decimal digits denotes.\<close>
  "nat_of_str s = foldl (\<lambda>n c. 10 * n + digit_val c) 0 s"

definition int_of_str :: "string \<Rightarrow> int" where
  \<comment> \<open>\<open>int(s)\<close> for a decimal numeral with an optional minus sign: reads back what
      \<open>str\<close> printed.\<close>
  "int_of_str s =
     (case s of
        [] \<Rightarrow> 0
      | c # cs \<Rightarrow> if c = CHR ''-'' then - int (nat_of_str cs) else int (nat_of_str s))"

section \<open>Text chunker\<close>

text \<open>
  A chunk is the dict \<open>{"id", "text", "source"}\<close> that \<open>chunk_text\<close> builds. Retrieval adds
  the key \<open>"similarity_score"\<close> to a copy, and the request handler renames it to
  \<open>"score"\<close>; a key that is absent is \<open>None\<close>. Scores are opaque: the model never computes
  with them.
\<close>

record chunk =
  c_id :: int
  c_text :: string
  c_source :: string
  similarity_score :: "real option"
  score :: "real option"

definition mk_chunk :: "int \<Rightarrow> string \<Rightarrow> chunk" where
  \<comment> \<open>\<open>{"id": chunk_id, "text": current_chunk.strip(), "source": f"chunk_{chunk_id}"}\<close>\<close>
  "mk_chunk chunk_id current_chunk =
     \<lparr>c_id = chunk_id, c_text = strip current_chunk,
      c_source = ''chunk_'' @ str_int chunk_id,
      similarity_score = None, score = None\<rparr>"

definition paragraphs :: "string \<Rightarrow> string list" where
  \<comment> \<open>\<open>[p.strip() for p in text.split('\n\n') if p.strip()]\<close>\<close>
  "paragraphs text = filter (\<lambda>p. p \<noteq> []) (map strip (split_blank text))"

definition overlap_text :: "int \<Rightarrow> string \<Rightarrow> string" where
  \<comment> \<open>\<open>words = current_chunk.split()\<close>;
      \<open>" ".join(words[-overlap//10:]) if len(words) > overlap//10 else ""\<close>.
      Python parses \<open>-overlap//10\<close> as \<open>(-overlap)//10\<close>, and \<open>//\<close> rounds down.\<close>
  "overlap_text overlap current_chunk =
     (let words = split_ws current_chunk
      in if int (length words) > overlap div 10
         then join '' '' (slice_from words ((- overlap) div 10))
         else [])"

definition flushes :: "int \<Rightarrow> string \<Rightarrow> string \<Rightarrow> bool" where
  \<comment> \<open>\<open>len(current_chunk) + len(paragraph) > chunk_size and current_chunk\<close>\<close>
  "flushes chunk_size current_chunk paragraph =
     (int (length current_chunk) + int (length paragraph) > chunk_size \<and> current_chunk \<noteq> [])"

definition next_buffer :: "int \<Rightarrow> string \<Rightarrow> string \<Rightarrow> string" where
  \<comment> \<open>The buffer that follows a flush:
      \<open>overlap_text + " " + paragraph if overlap_text else paragraph\<close>.\<close>
  "next_buffer overlap current_chunk paragraph =
     (let ov = overlap_text overlap current_chunk
      in if ov \<noteq> [] then ov @ '' '' @ paragraph else paragraph)"

fun chunk_step :: "int \<Rightarrow> int \<Rightarrow> chunk list \<times> string \<times> int \<Rightarrow> string \<Rightarrow> chunk list \<times> string \<times> int" where
  \<comment> \<open>One pass of the loop body over \<open>(chunks, current_chunk, chunk_id)\<close>.\<close>
  "chunk_step chunk_size overlap (chunks, current_chunk, chunk_id) paragraph =
     (if flushes chunk_size current_chunk paragraph
      then (chunks @ [mk_chunk chunk_id current_chunk],
            next_buffer overlap current_chunk paragraph,
            chunk_id + 1)
      else (chunks,
            (if current_chunk \<noteq> [] then current_chunk @ ''\<newline>\<newline>'' @ paragraph else paragraph),
            chunk_id))"

definition chunk_loop :: "int \<Rightarrow> int \<Rightarrow> chunk list \<times> string \<times> int \<Rightarrow> string list \<Rightarrow> chunk list \<times> string \<times> int" where
  "chunk_loop chunk_size overlap st ps = foldl (chunk_step chunk_size overlap) st ps"

definition chunk_text :: "string \<Rightarrow> int \<Rightarrow> int \<Rightarrow> chunk list" where
  "chunk_text text chunk_size overlap =
     (case chunk_loop chunk_size overlap ([], [], 0) (paragraphs text) of
        (chunks, current_chunk, chunk_id) \<Rightarrow>
          if current_chunk \<noteq> [] then chunks @ [mk_chunk chunk_id current_chunk] else chunks)"


section \<open>Answer synthesizer\<close>

definition lower_char :: "char \<Rightarrow> char" where
  \<comment> \<open>\<open>str.lower()\<close> on one code point below 256.\<close>
  "lower_char c =
     (let n = (of_char c :: nat)
      in if (65 \<le> n \<and> n \<le> 90) \<or> (192 \<le> n \<and> n \<le> 222 \<and> n \<noteq> 215)
         then char_of (n + 32) else c)"

definition lower :: "string \<Rightarrow> string" where
  "lower s = map lower_char s"

definition contains :: "string \<Rightarrow> string \<Rightarrow> bool" where
  \<comment> \<open>\<open>sub in s\<close>\<close>
  "contains sub s = sublist sub s"

definition any_in :: "string list \<Rightarrow> string \<Rightarrow> bool" where
  \<comment> \<open>\<open>any(word in s for word in words)\<close>\<close>
  "any_in words s = list_ex (\<lambda>word. contains word s) words"

definition clause_ids :: "chunk list \<Rightarrow> string" where
  \<comment> \<open>\<open>', '.join([str(chunk['id']) for chunk in relevant_chunks])\<close>\<close>
  "clause_ids relevant_chunks = join '', '' (map (\<lambda>chunk. str_int (c_id chunk)) relevant_chunks)"

definition generate_intelligent_answer :: "string \<Rightarrow> chunk list \<Rightarrow> string \<Rightarrow> string" where
  "generate_intelligent_answer question relevant_chunks context =
     (let question_lower = lower question;
          context_lower = lower context;
          ids = clause_ids relevant_chunks
      in
      if any_in [''coverage'', ''covered'', ''treatment'', ''medical''] question_lower then
        (if contains ''hospitalization'' context_lower \<or> contains ''hospital'' context_lower then
           ''Based on the policy clauses, hospitalization coverage is mentioned. Please refer to clauses ''
             @ ids @ '' for specific coverage details and conditions.''
         else if contains ''treatment'' context_lower \<or> contains ''medical'' context_lower then
           ''Medical treatments are addressed in the policy. Specific coverage details can be found in clauses ''
             @ ids @ ''.''
         else
           ''Coverage information is outlined in clauses ''
             @ ids @ ''. Review these sections for detailed coverage terms.'')
      else if any_in [''exclusion'', ''excluded'', ''not covered''] question_lower then
        (if contains ''exclusion'' context_lower \<or> contains ''excluded'' context_lower
              \<or> contains ''not covered'' context_lower then
           ''Yes, the policy contains exclusions. Specific exclusions are detailed in clauses ''
             @ ids @ ''.''
         else
           ''Exclusion details can be found in clauses ''
             @ ids @ ''. Please review for complete exclusion terms.'')
      else if any_in [''waiting period'', ''wait'', ''pre-existing''] question_lower then
        (if contains ''waiting'' context_lower \<or> contains ''period'' context_lower then
           ''Waiting periods are specified in the policy. Refer to clauses ''
             @ ids @ '' for specific waiting period terms.''
         else if contains ''pre-existing'' context_lower then
           ''Pre-existing conditions are addressed in clauses ''
             @ ids @ ''. Check these sections for coverage terms and waiting periods.''
         else
           ''Waiting period information is available in clauses '' @ ids @ ''.'')
      else if any_in [''sum insured'', ''coverage amount'', ''benefit'', ''limit''] question_lower then
        (if any_in [''sum'', ''amount'', ''limit'', ''benefit''] context_lower then
           ''Sum insured and benefit amounts are specified in the policy. Detailed information is in clauses ''
             @ ids @ ''.''
         else
           ''Coverage amounts and limits are detailed in clauses '' @ ids @ ''.'')
      else if any_in [''claim'', ''settlement'', ''process''] question_lower then
        (if contains ''claim'' context_lower then
           ''Claim procedures are outlined in the policy. Specific claim process details are in clauses ''
             @ ids @ ''.''
         else
           ''Claims information can be found in clauses '' @ ids @ ''.'')
      else if any_in [''tenure'', ''duration'', ''period'', ''term''] question_lower then
        (if any_in [''year'', ''month'', ''term'', ''period''] context_lower then
           ''Policy term and duration details are specified in clauses '' @ ids @ ''.''
         else
           ''Policy duration information is available in clauses '' @ ids @ ''.'')
      else if any_in [''age'', ''eligibility'', ''entry''] question_lower then
        (if contains ''age'' context_lower then
           ''Age-related eligibility criteria are mentioned in clauses '' @ ids @ ''.''
         else
           ''Eligibility information can be found in clauses '' @ ids @ ''.'')
      else if any_in [''premium'', ''payment'', ''grace''] question_lower then
        (if any_in [''premium'', ''payment'', ''grace''] context_lower then
           ''Premium and payment details, including grace periods, are specified in clauses ''
             @ ids @ ''.''
         else
           ''Payment terms are outlined in clauses '' @ ids @ ''.'')
      else if any_in [''maternity'', ''pregnancy'', ''childbirth''] question_lower then
        (if any_in [''maternity'', ''pregnancy'', ''child''] context_lower then
           ''Maternity benefits are addressed in the policy. Details are in clauses '' @ ids @ ''.''
         else
           ''Maternity coverage information can be found in clauses '' @ ids @ ''.'')
      else if any_in [''cosmetic'', ''surgery'', ''plastic''] question_lower then
        (if any_in [''cosmetic'', ''plastic'', ''surgery''] context_lower then
           ''Cosmetic surgery coverage is specifically mentioned in clauses '' @ ids @ ''.''
         else
           ''Surgery coverage details, including cosmetic procedures, are in clauses '' @ ids @ ''.'')
      else
        ''Based on the available policy clauses '' @ ids
          @ '', this information is covered in the policy document. Please review these specific sections for detailed terms and conditions.'')"

definition build_context :: "chunk list \<Rightarrow> string" where
  \<comment> \<open>\<open>"\n\n".join([f"Clause {chunk['id']}: {chunk['text']}" for chunk in relevant_chunks])\<close>\<close>
  "build_context relevant_chunks =
     join ''\<newline>\<newline>''
       (map (\<lambda>chunk. ''Clause '' @ str_int (c_id chunk) @ '': '' @ c_text chunk) relevant_chunks)"

definition build_prompt :: "string \<Rightarrow> string \<Rightarrow> string" where
  "build_prompt question context =
     ''You're an expert insurance claims assistant. Based on the following policy clauses, answer the user's question in clear terms and justify your answer using the source clauses.\<newline>\<newline>Question: ''
     @ question
     @ ''\<newline>\<newline>Relevant Policy Clauses:\<newline>''
     @ context
     @ ''\<newline>\<newline>Instructions:\<newline>1. Provide a clear yes/no answer if applicable\<newline>2. Reference specific clause numbers/sections\<newline>3. Keep response concise (1-2 sentences)\<newline>4. If information is insufficient, state clearly\<newline>\<newline>Answer:''"

section \<open>Collaborators, state and errors\<close>

text \<open>
  The libraries the handler calls are parameters of the model. A call that can raise returns
  \<open>Inl\<close> of the exception's message. The embedding array and the FAISS index are values of
  the abstract types \<open>'e\<close> and \<open>'i\<close>; PDF bytes are a \<open>string\<close>.
\<close>

record ('e, 'i) env =
  md5_hex :: "string \<Rightarrow> string"
    \<comment> \<open>\<open>hashlib.md5(doc_url.encode()).hexdigest()\<close>\<close>
  http_get :: "string \<Rightarrow> string + string"
    \<comment> \<open>\<open>requests.get(url, timeout=30)\<close>, \<open>raise_for_status()\<close>, \<open>.content\<close>\<close>
  pdf_pages :: "string \<Rightarrow> string + string option list"
    \<comment> \<open>\<open>pdfplumber.open\<close>: \<open>page.extract_text()\<close> of each page, which may be \<open>None\<close>\<close>
  encode :: "string list \<Rightarrow> string + 'e"
    \<comment> \<open>\<open>embedding_model.encode(texts)\<close>\<close>
  faiss_build :: "'e \<Rightarrow> string + 'i"
    \<comment> \<open>\<open>IndexFlatIP(embeddings.shape[1])\<close>, \<open>normalize_L2\<close>, \<open>index.add\<close>\<close>
  faiss_search :: "'i \<Rightarrow> 'e \<Rightarrow> nat \<Rightarrow> string + (real \<times> int) list"
    \<comment> \<open>\<open>normalize_L2\<close> and \<open>index.search(query_embedding, top_k)\<close>: the pairs
        \<open>(scores[0][i], indices[0][i])\<close>\<close>
  gemini_model :: "(string \<Rightarrow> string + string) option"
    \<comment> \<open>\<open>None\<close> without an API key; else \<open>generate_content(prompt).text\<close>\<close>

datatype exn = HTTPException nat string | OtherException string

datatype stage = Download | ExtractText | ChunkText | EmbedChunks | CreateVectorStore

datatype event =
    Ingest stage string
  | EmbedQuery string
  | Search
  | AnswerQuestion string
  | Generate

record doc_entry =
  d_chunks :: "nat list"
  d_text :: string

text \<open>
  The state holds the two module-level caches, the heap of chunk dicts (a chunk list in Python
  is a list of references; an address is an index into \<open>heap\<close>) and the trace: the calls the
  handler has made to the pipeline stages, oldest first.
\<close>

record 'i state =
  document_cache :: "string \<rightharpoonup> doc_entry"
  vector_store_cache :: "string \<rightharpoonup> 'i"
  heap :: "chunk list"
  trace :: "event list"

definition init_state :: "'i state" where
  "init_state = \<lparr>document_cache = Map.empty, vector_store_cache = Map.empty, heap = [], trace = []\<rparr>"

definition trace_call :: "event \<Rightarrow> 'i state \<Rightarrow> 'i state" where
  "trace_call ev s = s\<lparr>trace := trace s @ [ev]\<rparr>"

definition download_pdf :: "('e, 'i) env \<Rightarrow> string \<Rightarrow> exn + string" where
  "download_pdf env url =
     (case http_get env url of
        Inl e \<Rightarrow> Inl (HTTPException 400 (''Failed to download PDF: '' @ e))
      | Inr content \<Rightarrow> Inr content)"

definition add_page :: "string \<Rightarrow> string option \<Rightarrow> string" where
  \<comment> \<open>\<open>if page_text: text += page_text + "\n"\<close>\<close>
  "add_page text_so_far page =
     (case page of
        None \<Rightarrow> text_so_far
      | Some page_text \<Rightarrow>
          if page_text \<noteq> [] then text_so_far @ page_text @ ''\<newline>'' else text_so_far)"

definition extract_text_from_pdf :: "('e, 'i) env \<Rightarrow> string \<Rightarrow> exn + string" where
  "extract_text_from_pdf env pdf_content =
     (case pdf_pages env pdf_content of
        Inl e \<Rightarrow> Inl (HTTPException 400 (''Failed to extract text from PDF: '' @ e))
      | Inr pages \<Rightarrow> Inr (foldl add_page [] pages))"

definition get_embeddings :: "('e, 'i) env \<Rightarrow> string list \<Rightarrow> exn + 'e" where
  "get_embeddings env texts =
     (case encode env texts of
        Inl e \<Rightarrow> Inl (HTTPException 500 (''Failed to generate embeddings: '' @ e))
      | Inr embeddings \<Rightarrow> Inr embeddings)"

definition create_vector_store :: "('e, 'i) env \<Rightarrow> nat list \<Rightarrow> 'e \<Rightarrow> exn + 'i \<times> nat list" where
  "create_vector_store env chunks embeddings =
     (case faiss_build env embeddings of
        Inl e \<Rightarrow> Inl (OtherException e)
      | Inr index \<Rightarrow> Inr (index, chunks))"


section \<open>Retrieval and answering\<close>

definition list_index :: "'a list \<Rightarrow> int \<Rightarrow> exn + 'a" where
  \<comment> \<open>\<open>xs[i]\<close>: from the end when \<open>i\<close> is negative; \<open>IndexError\<close> outside the list.\<close>
  "list_index xs i =
     (if 0 \<le> i \<and> i < int (length xs) then Inr (xs ! nat i)
      else if i < 0 \<and> - int (length xs) \<le> i then Inr (xs ! nat (int (length xs) + i))
      else Inl (OtherException ''list index out of range''))"

definition copy_chunk :: "nat \<Rightarrow> 'i state \<Rightarrow> nat \<times> 'i state" where
  \<comment> \<open>\<open>chunks[idx].copy()\<close>: a new dict with the same items, at a fresh address.\<close>
  "copy_chunk a s = (length (heap s), s\<lparr>heap := heap s @ [heap s ! a]\<rparr>)"

definition update_chunk :: "nat \<Rightarrow> (chunk \<Rightarrow> chunk) \<Rightarrow> 'i state \<Rightarrow> 'i state" where
  \<comment> \<open>An assignment to keys of the dict at address \<open>a\<close>.\<close>
  "update_chunk a f s = s\<lparr>heap := (heap s)[a := f (heap s ! a)]\<rparr>"

fun collect_chunks :: "'i state \<Rightarrow> nat list \<Rightarrow> (real \<times> int) list \<Rightarrow> nat list \<Rightarrow> 'i state \<times> (exn + nat list)" where
  \<comment> \<open>The loop \<open>for i, idx in enumerate(indices[0])\<close> over \<open>relevant_chunks\<close>.\<close>
  "collect_chunks s chunks [] relevant_chunks = (s, Inr relevant_chunks)"
| "collect_chunks s chunks ((sc, idx) # hits) relevant_chunks =
     (if idx \<noteq> - 1 then
        (case list_index chunks idx of
           Inl e \<Rightarrow> (s, Inl e)
         | Inr a \<Rightarrow>
             (case copy_chunk a s of
                (chunk, s1) \<Rightarrow>
                  collect_chunks (update_chunk chunk (\<lambda>c. c\<lparr>similarity_score := Some sc\<rparr>) s1)
                    chunks hits (relevant_chunks @ [chunk])))
      else collect_chunks s chunks hits relevant_chunks)"

definition retrieve_relevant_chunks ::
  "('e, 'i) env \<Rightarrow> 'i state \<Rightarrow> string \<Rightarrow> 'i \<Rightarrow> nat list \<Rightarrow> nat \<Rightarrow> 'i state \<times> (exn + nat list)" where
  "retrieve_relevant_chunks env s query index chunks top_k =
     (let s1 = trace_call (EmbedQuery query) s in
      case get_embeddings env [query] of
        Inl e \<Rightarrow> (s1, Inl e)
      | Inr query_embedding \<Rightarrow>
          (let s2 = trace_call Search s1 in
           case faiss_search env index query_embedding top_k of
             Inl e \<Rightarrow> (s2, Inl (OtherException e))
           | Inr hits \<Rightarrow> collect_chunks s2 chunks hits []))"

definition answer_question :: "('e, 'i) env \<Rightarrow> 'i state \<Rightarrow> string \<Rightarrow> chunk list \<Rightarrow> 'i state \<times> string" where
  "answer_question env s question relevant_chunks =
     (let s1 = trace_call (AnswerQuestion question) s;
          context = build_context relevant_chunks;
          prompt = build_prompt question context
      in case gemini_model env of
           Some generate_content \<Rightarrow>
             (case generate_content prompt of
                Inr response_text \<Rightarrow> (trace_call Generate s1, strip response_text)
              | Inl e \<Rightarrow>
                  (trace_call Generate s1,
                   generate_intelligent_answer question relevant_chunks context))
         | None \<Rightarrow> (s1, generate_intelligent_answer question relevant_chunks context))"

section \<open>Request handler\<close>

text \<open>
  The handler of \<open>POST /hackrx/run\<close>, after the bearer token has been accepted. It threads the
  state through the steps in the order of the source; a step that raises ends the call with
  the state reached so far.
\<close>

definition no_information :: string where
  "no_information = ''No relevant information found in the policy document for this question.''"

definition clean_chunk :: "chunk \<Rightarrow> chunk" where
  \<comment> \<open>\<open>chunk["score"] = chunk.pop("similarity_score", 0.0)\<close>. The loop over \<open>chunk.items()\<close>
      that follows unwraps numpy scalars; the values are an int, two strs and a float, none has
      an attribute \<open>item\<close>, and it changes nothing.\<close>
  "clean_chunk c =
     c\<lparr>similarity_score := None,
       score := Some (case similarity_score c of None \<Rightarrow> 0 | Some v \<Rightarrow> v)\<rparr>"

definition clean_chunks :: "'i state \<Rightarrow> nat list \<Rightarrow> 'i state" where
  \<comment> \<open>\<open>for chunk in relevant_chunks: ...\<close>\<close>
  "clean_chunks s relevant_chunks = foldl (\<lambda>s chunk. update_chunk chunk clean_chunk s) s relevant_chunks"

fun question_step ::
  "('e, 'i) env \<Rightarrow> 'i \<Rightarrow> nat list \<Rightarrow> 'i state \<times> string list \<times> nat list \<Rightarrow> string
     \<Rightarrow> 'i state \<times> (exn + string list \<times> nat list)" where
  \<comment> \<open>One pass of \<open>for question in request.questions\<close> over
      \<open>(answers, all_source_chunks)\<close>.\<close>
  "question_step env index chunks (s, answers, all_source_chunks) question =
     (case retrieve_relevant_chunks env s question index chunks 5 of
        (s1, Inl e) \<Rightarrow> (s1, Inl e)
      | (s1, Inr relevant_chunks) \<Rightarrow>
          if relevant_chunks = [] then (s1, Inr (answers @ [no_information], all_source_chunks))
          else
            (let s2 = clean_chunks s1 relevant_chunks in
             case answer_question env s2 question (map (\<lambda>a. heap s2 ! a) relevant_chunks) of
               (s3, answer) \<Rightarrow>
                 (s3, Inr (answers @ [answer], all_source_chunks @ relevant_chunks))))"

fun question_loop ::
  "('e, 'i) env \<Rightarrow> 'i \<Rightarrow> nat list \<Rightarrow> 'i state \<times> string list \<times> nat list \<Rightarrow> string list
     \<Rightarrow> 'i state \<times> (exn + string list \<times> nat list)" where
  "question_loop env index chunks (s, answers, all_source_chunks) [] =
     (s, Inr (answers, all_source_chunks))"
| "question_loop env index chunks (s, answers, all_source_chunks) (question # questions) =
     (case question_step env index chunks (s, answers, all_source_chunks) question of
        (s1, Inl e) \<Rightarrow> (s1, Inl e)
      | (s1, Inr (answers1, all_source_chunks1)) \<Rightarrow>
          question_loop env index chunks (s1, answers1, all_source_chunks1) questions)"

definition ingest :: "('e, 'i) env \<Rightarrow> 'i state \<Rightarrow> string \<Rightarrow> string \<Rightarrow> 'i state \<times> (exn + unit)" where
  \<comment> \<open>The body of \<open>if doc_hash not in document_cache\<close>.\<close>
  "ingest env s doc_url doc_hash =
     (let s1 = trace_call (Ingest Download doc_hash) s in
      case download_pdf env doc_url of
        Inl e \<Rightarrow> (s1, Inl e)
      | Inr pdf_content \<Rightarrow>
     (let s2 = trace_call (Ingest ExtractText doc_hash) s1 in
      case extract_text_from_pdf env pdf_content of
        Inl e \<Rightarrow> (s2, Inl e)
      | Inr txt \<Rightarrow>
      if strip txt = [] then (s2, Inl (HTTPException 400 ''No text found in PDF''))
      else
     (let s3 = trace_call (Ingest ChunkText doc_hash) s2;
          new_chunks = chunk_text txt 1000 200;
          chunks = [length (heap s3) ..< length (heap s3) + length new_chunks];
          s4 = s3\<lparr>heap := heap s3 @ new_chunks\<rparr>
      in
      if chunks = [] then (s4, Inl (HTTPException 400 ''No valid chunks created from document''))
      else
     (let s5 = trace_call (Ingest EmbedChunks doc_hash) s4 in
      case get_embeddings env (map (\<lambda>a. c_text (heap s5 ! a)) chunks) of
        Inl e \<Rightarrow> (s5, Inl e)
      | Inr embeddings \<Rightarrow>
     (let s6 = trace_call (Ingest CreateVectorStore doc_hash) s5 in
      case create_vector_store env chunks embeddings of
        Inl e \<Rightarrow> (s6, Inl e)
      | Inr (index, processed_chunks) \<Rightarrow>
          (s6\<lparr>document_cache :=
                 (document_cache s6)(doc_hash \<mapsto> \<lparr>d_chunks = processed_chunks, d_text = txt\<rparr>),
               vector_store_cache := (vector_store_cache s6)(doc_hash \<mapsto> index)\<rparr>,
           Inr ()))))))"

definition key_error :: "string \<Rightarrow> exn" where
  \<comment> \<open>\<open>KeyError(key)\<close>; its \<open>str\<close> is the key in single quotes.\<close>
  "key_error k = OtherException ([CHR 0x27] @ k @ [CHR 0x27])"

definition resolve_document ::
  "('e, 'i) env \<Rightarrow> 'i state \<Rightarrow> string \<Rightarrow> 'i state \<times> (exn + 'i \<times> nat list)" where
  \<comment> \<open>From \<open>doc_hash = ...\<close> to \<open>chunks = cached_doc["chunks"]\<close>: ingest on a miss, then read
      both caches; a missing key raises \<open>KeyError\<close>.\<close>
  "resolve_document env s doc_url =
     (let doc_hash = md5_hex env doc_url in
      case (if document_cache s doc_hash = None then ingest env s doc_url doc_hash
            else (s, Inr ())) of
        (s1, Inl e) \<Rightarrow> (s1, Inl e)
      | (s1, Inr _) \<Rightarrow>
          (case document_cache s1 doc_hash of
             None \<Rightarrow> (s1, Inl (key_error doc_hash))
           | Some cached_doc \<Rightarrow>
               (case vector_store_cache s1 doc_hash of
                  None \<Rightarrow> (s1, Inl (key_error doc_hash))
                | Some index \<Rightarrow> (s1, Inr (index, d_chunks cached_doc)))))"

record response =
  r_answers :: "string list"
  r_source_chunks :: "chunk list"

definition to_http :: "exn \<Rightarrow> exn" where
  \<comment> \<open>\<open>except HTTPException: raise\<close>;
      \<open>except Exception as e: raise HTTPException(500, f"Internal server error: {str(e)}")\<close>\<close>
  "to_http e =
     (case e of
        HTTPException code detail \<Rightarrow> HTTPException code detail
      | OtherException msg \<Rightarrow> HTTPException 500 (''Internal server error: '' @ msg))"

definition process_insurance_query ::
  "('e, 'i) env \<Rightarrow> 'i state \<Rightarrow> string \<Rightarrow> string list \<Rightarrow> 'i state \<times> (exn + response)" where
  \<comment> \<open>The response without \<open>processing_time\<close>, which is a wall-clock reading.\<close>
  "process_insurance_query env s doc_url questions =
     (case resolve_document env s doc_url of
        (s1, Inl e) \<Rightarrow> (s1, Inl (to_http e))
      | (s1, Inr (index, chunks)) \<Rightarrow>
          (case question_loop env index chunks (s1, [], []) questions of
             (s2, Inl e) \<Rightarrow> (s2, Inl (to_http e))
           | (s2, Inr (answers, all_source_chunks)) \<Rightarrow>
               (s2, Inr \<lparr>r_answers = answers,
                         r_source_chunks = map (\<lambda>a. heap s2 ! a) all_source_chunks\<rparr>)))"

definition cache_stats :: "'i state \<Rightarrow> nat \<times> nat" where
  \<comment> \<open>\<open>(documents_cached, vector_stores_cached)\<close>\<close>
  "cache_stats s = (card (dom (document_cache s)), card (dom (vector_store_cache s)))"

definition clear_cache :: "'i state \<Rightarrow> 'i state" where
  "clear_cache s = s\<lparr>document_cache := Map.empty, vector_store_cache := Map.empty\<rparr>"

inductive reachable :: "('e, 'i) env \<Rightarrow> 'i state \<Rightarrow> bool" for env :: "('e, 'i) env" where
  start: "reachable env init_state"
| query: "reachable env s \<Longrightarrow> reachable env (fst (process_insurance_query env s doc_url questions))"
| clear: "reachable env s \<Longrightarrow> reachable env (clear_cache s)"


section \<open>Invariants and reference definitions\<close>

definition chunks_ok :: "chunk list \<Rightarrow> bool" where
  \<comment> \<open>Ids count up from zero and every text keeps a character after trimming.\<close>
  "chunks_ok chunks =
     (\<forall>k<length chunks. c_id (chunks ! k) = int k \<and> strip (c_text (chunks ! k)) \<noteq> [])"

definition chunk_inv :: "chunk list \<times> string \<times> int \<Rightarrow> bool" where
  \<comment> \<open>The invariant of the chunker loop.\<close>
  "chunk_inv st =
     (case st of (chunks, current_chunk, chunk_id) \<Rightarrow>
        chunk_id = int (length chunks) \<and> chunks_ok chunks \<and>
        (current_chunk = [] \<or> (\<exists>c\<in>set current_chunk. \<not> is_space c)))"

definition trimmed :: "string \<Rightarrow> bool" where
  "trimmed p = (p \<noteq> [] \<and> \<not> is_space (hd p) \<and> \<not> is_space (last p))"

definition whole_in :: "string \<Rightarrow> chunk list \<times> string \<times> int \<Rightarrow> bool" where
  \<comment> \<open>The paragraph lies whole in a finished chunk or in the running buffer.\<close>
  "whole_in p st =
     (case st of (chunks, current_chunk, chunk_id) \<Rightarrow>
        (\<exists>c\<in>set chunks. sublist p (c_text c)) \<or> sublist p current_chunk)"

definition spec_overlap_seed :: "int \<Rightarrow> string \<Rightarrow> string" where
  \<comment> \<open>The specification's overlap text: the trailing \<open>overlap/10\<close> words of the flushed
      buffer, all of them when it has fewer.\<close>
  "spec_overlap_seed overlap buffer =
     (let words = split_ws buffer
      in join '' '' (drop (length words - nat (overlap div 10)) words))"

definition spec_next_buffer :: "int \<Rightarrow> string \<Rightarrow> string \<Rightarrow> string" where
  \<comment> \<open>The specification's next buffer: the overlap text as a seed, or the paragraph alone
      when the overlap text is empty.\<close>
  "spec_next_buffer overlap buffer paragraph =
     (if spec_overlap_seed overlap buffer = [] then paragraph
      else spec_overlap_seed overlap buffer @ '' '' @ paragraph)"

section \<open>Traces, frames and example collaborators\<close>

fun is_ingest :: "event \<Rightarrow> bool" where
  \<comment> \<open>The events of document ingestion: download, extraction, chunking, embedding of the
      chunks, index building.\<close>
  "is_ingest (Ingest st h) = True"
| "is_ingest ev = False"

definition new_events :: "'i state \<Rightarrow> 'i state \<Rightarrow> event list" where
  \<comment> \<open>What the trace gained between \<open>s\<close> and a later state \<open>s'\<close>.\<close>
  "new_events s s' = drop (length (trace s)) (trace s')"


definition keeps :: "nat \<Rightarrow> 'i state \<Rightarrow> 'i state \<Rightarrow> bool" where
  \<comment> \<open>The frame of question processing: both caches and the first \<open>n\<close> heap cells are as
      before, the heap and the trace only grow, and no ingestion step is traced.\<close>
  "keeps n s s' =
     (document_cache s' = document_cache s \<and>
      vector_store_cache s' = vector_store_cache s \<and>
      length (heap s) \<le> length (heap s') \<and>
      take n (heap s') = take n (heap s) \<and>
      prefix (trace s) (trace s') \<and>
      filter is_ingest (new_events s s') = [])"

definition caches_agree :: "'i state \<Rightarrow> bool" where
  \<comment> \<open>Both caches hold the same keys.\<close>
  "caches_agree s = (dom (document_cache s) = dom (vector_store_cache s))"

definition step_answer :: "('e, 'i) env \<Rightarrow> 'i \<Rightarrow> nat list \<Rightarrow> 'i state \<Rightarrow> string \<Rightarrow> string option" where
  \<comment> \<open>The answer that one pass of the question loop, run in state \<open>s\<close>, appends for
      \<open>question\<close>; \<open>None\<close> when the pass raises.\<close>
  "step_answer env index chunks s question =
     (case question_step env index chunks (s, [], []) question of
        (s1, Inl e) \<Rightarrow> None
      | (s1, Inr (new_answers, new_sources)) \<Rightarrow> Some (last new_answers))"

definition state_before :: "('e, 'i) env \<Rightarrow> 'i \<Rightarrow> nat list \<Rightarrow> 'i state \<Rightarrow> string list \<Rightarrow> nat \<Rightarrow> 'i state" where
  \<comment> \<open>The state in which the loop reaches question number \<open>i\<close>.\<close>
  "state_before env index chunks s questions i =
     fst (question_loop env index chunks (s, [], []) (take i questions))"

definition demo_env :: "(string list, string list) env" where
  \<comment> \<open>Collaborators for running the handler on examples: the document's bytes are its URL,
      read as a PDF of one page; an embedding is the list of texts itself; a search
      returns the first \<open>k\<close> positions of the index, padded with \<open>-1\<close>, and nothing for
      the empty question. No Gemini key is configured.\<close>
  "demo_env =
     \<lparr>md5_hex = (\<lambda>url. url),
      http_get = (\<lambda>url. Inr url),
      pdf_pages = (\<lambda>pdf. Inr [Some pdf]),
      encode = (\<lambda>texts. Inr texts),
      faiss_build = (\<lambda>embeddings. Inr embeddings),
      faiss_search = (\<lambda>index query k.
         Inr (map (\<lambda>j. if j < length index \<and> query \<noteq> [[]] then (1, int j) else (0, - 1)) [0..<k])),
      gemini_model = None\<rparr>"

section \<open>Trimming\<close>

lemma strip_nonempty_iff: "strip s \<noteq> [] \<longleftrightarrow> (\<exists>c\<in>set s. \<not> is_space c)"
proof
  assume "strip s \<noteq> []"
  then show "\<exists>c\<in>set s. \<not> is_space c"
    by (auto simp: strip_def dest: set_dropWhileD)
next
  assume "\<exists>c\<in>set s. \<not> is_space c"
  then have d: "dropWhile is_space s \<noteq> []" by auto
  then have "\<not> is_space (hd (dropWhile is_space s))" by (rule hd_dropWhile)
  with d have "\<exists>c\<in>set (rev (dropWhile is_space s)). \<not> is_space c"
    by (metis hd_in_set set_rev)
  then show "strip s \<noteq> []" by (auto simp: strip_def)
qed

lemma strip_ends:
  assumes "strip s \<noteq> []"
  shows "\<not> is_space (hd (strip s))" and "\<not> is_space (last (strip s))"
proof -
  let ?d = "dropWhile is_space s"
  let ?e = "dropWhile is_space (rev ?d)"
  from assms have e: "?e \<noteq> []" by (simp add: strip_def)
  then have d: "?d \<noteq> []" by (auto dest: set_dropWhileD)
  have "last (strip s) = hd ?e" by (simp add: strip_def hd_rev last_rev)
  with hd_dropWhile [OF e] show "\<not> is_space (last (strip s))" by simp
  have "hd (strip s) = last ?e" by (simp add: strip_def hd_rev)
  also have "last ?e = last (rev ?d)"
    using e by (metis append_Nil2 last_appendR takeWhile_dropWhile_id)
  also have "\<dots> = hd ?d" by (simp add: last_rev)
  finally show "\<not> is_space (hd (strip s))" using hd_dropWhile [OF d] by simp
qed

lemma strip_strip: "strip (strip s) = strip s"
proof (cases "strip s = []")
  case True
  then show ?thesis by (simp add: strip_def [of "[]"])
next
  case False
  from strip_ends [OF False] have h: "\<not> is_space (hd (strip s))" and l: "\<not> is_space (last (strip s))" by auto
  from False h have 1: "dropWhile is_space (strip s) = strip s"
    by (cases "strip s") auto
  from False l have 2: "dropWhile is_space (rev (strip s)) = rev (strip s)"
    by (cases "rev (strip s)") (auto simp: hd_rev [symmetric])
  show ?thesis
    unfolding strip_def [of "strip s"] 1 2 by simp
qed

lemma sublist_dropWhile:
  assumes "sublist p s" "p \<noteq> []" "\<not> P (hd p)"
  shows "sublist p (dropWhile P s)"
proof -
  from assms(1) obtain a b where s: "s = a @ p @ b" by (auto simp: sublist_def)
  from assms(2,3) have "dropWhile P (p @ b) = p @ b" by (cases p) auto
  then have "dropWhile P s = (if \<forall>x\<in>set a. P x then p @ b else dropWhile P a @ p @ b)"
    by (simp add: s dropWhile_append)
  then show ?thesis by (auto simp: sublist_def)
qed

lemma sublist_strip:
  assumes "sublist p s" "p \<noteq> []" "\<not> is_space (hd p)" "\<not> is_space (last p)"
  shows "sublist p (strip s)"
proof -
  have "sublist p (dropWhile is_space s)" using assms(1-3) by (rule sublist_dropWhile)
  then have "sublist (rev p) (rev (dropWhile is_space s))" by simp
  then have "sublist (rev p) (dropWhile is_space (rev (dropWhile is_space s)))"
    using assms(2,4) by (intro sublist_dropWhile) (auto simp: hd_rev)
  then show ?thesis by (simp add: strip_def sublist_rev_left)
qed

lemma paragraphs_ends:
  assumes "p \<in> set (paragraphs text)"
  shows "p \<noteq> []" "\<not> is_space (hd p)" "\<not> is_space (last p)"
  using assms strip_ends by (auto simp: paragraphs_def)

section \<open>Chunker: ids and texts\<close>

lemma chunk_step_flush:
  "flushes chunk_size cur p \<Longrightarrow>
   chunk_step chunk_size overlap (chunks, cur, cid) p =
     (chunks @ [mk_chunk cid cur], next_buffer overlap cur p, cid + 1)"
  by simp

lemma chunk_step_append:
  "\<not> flushes chunk_size cur p \<Longrightarrow>
   chunk_step chunk_size overlap (chunks, cur, cid) p =
     (chunks, (if cur \<noteq> [] then cur @ ''\<newline>\<newline>'' @ p else p), cid)"
  by simp

lemma mk_chunk_text_nonempty:
  assumes "\<exists>c\<in>set cur. \<not> is_space c"
  shows "strip (c_text (mk_chunk cid cur)) \<noteq> []"
proof -
  have "strip cur \<noteq> []" using assms by (simp only: strip_nonempty_iff)
  then show ?thesis by (simp add: mk_chunk_def strip_strip)
qed

lemma chunks_ok_snoc:
  assumes "chunks_ok chunks" "\<exists>c\<in>set cur. \<not> is_space c"
  shows "chunks_ok (chunks @ [mk_chunk (int (length chunks)) cur])"
  unfolding chunks_ok_def
proof (intro allI impI)
  fix k assume "k < length (chunks @ [mk_chunk (int (length chunks)) cur])"
  then consider "k < length chunks" | "k = length chunks" by fastforce
  then show "c_id ((chunks @ [mk_chunk (int (length chunks)) cur]) ! k) = int k \<and>
             strip (c_text ((chunks @ [mk_chunk (int (length chunks)) cur]) ! k)) \<noteq> []"
  proof cases
    case 1
    with assms(1) show ?thesis by (simp add: chunks_ok_def nth_append)
  next
    case 2
    with mk_chunk_text_nonempty [OF assms(2)] show ?thesis
      by (simp add: nth_append) (simp add: mk_chunk_def)
  qed
qed

lemma next_buffer_has_paragraph:
  "\<exists>a. next_buffer overlap cur p = a @ p"
  by (auto simp: next_buffer_def Let_def intro: exI [of _ "[]"])

lemma chunk_step_inv:
  assumes "chunk_inv st" "\<exists>c\<in>set p. \<not> is_space c"
  shows "chunk_inv (chunk_step chunk_size overlap st p)"
proof -
  obtain chunks cur cid where st: "st = (chunks, cur, cid)" by (cases st) auto
  obtain a where a: "next_buffer overlap cur p = a @ p"
    using next_buffer_has_paragraph by blast
  show ?thesis
  proof (cases "flushes chunk_size cur p")
    case True
    then have "cur \<noteq> []" by (simp add: flushes_def)
    with assms(1) have "chunks_ok (chunks @ [mk_chunk (int (length chunks)) cur])"
      by (intro chunks_ok_snoc) (auto simp: st chunk_inv_def)
    with assms show ?thesis
      unfolding st chunk_step_flush [OF True] a by (auto simp: chunk_inv_def)
  next
    case False
    with assms show ?thesis
      unfolding st chunk_step_append [OF False] by (auto simp: chunk_inv_def)
  qed
qed

lemma chunk_loop_inv:
  assumes "chunk_inv st" "\<forall>p\<in>set ps. \<exists>c\<in>set p. \<not> is_space c"
  shows "chunk_inv (chunk_loop chunk_size overlap st ps)"
  using assms unfolding chunk_loop_def
proof (induction ps arbitrary: st)
  case Nil
  then show ?case by simp
next
  case (Cons p ps)
  from Cons.prems have "chunk_inv (chunk_step chunk_size overlap st p)"
    by (intro chunk_step_inv) auto
  with Cons show ?case by (simp del: chunk_step.simps)
qed

lemma paragraphs_nonspace:
  assumes "p \<in> set (paragraphs txt)"
  shows "\<exists>c\<in>set p. \<not> is_space c"
  using paragraphs_ends [OF assms] hd_in_set by blast

lemma chunk_text_ok: "chunks_ok (chunk_text txt chunk_size overlap)"
proof -
  obtain chunks cur cid where
    l: "chunk_loop chunk_size overlap ([], [], 0) (paragraphs txt) = (chunks, cur, cid)"
    by (cases "chunk_loop chunk_size overlap ([], [], 0) (paragraphs txt)") auto
  have "chunk_inv ([], [], 0)" by (simp add: chunk_inv_def chunks_ok_def)
  then have "chunk_inv (chunk_loop chunk_size overlap ([], [], 0) (paragraphs txt))"
    by (rule chunk_loop_inv) (auto dest: paragraphs_nonspace)
  then have i: "cid = int (length chunks)" "chunks_ok chunks"
      "cur = [] \<or> (\<exists>c\<in>set cur. \<not> is_space c)"
    by (auto simp: l chunk_inv_def)
  show ?thesis
  proof (cases "cur = []")
    case True
    with i show ?thesis by (simp add: chunk_text_def l)
  next
    case False
    with i chunks_ok_snoc [of chunks cur] show ?thesis by (simp add: chunk_text_def l)
  qed
qed

text \<open>
  Claim C5. For every input text and every pair of parameters, the chunk at position \<open>k\<close> of
  the list that \<open>chunk_text\<close> returns has id \<open>k\<close>, so the ids are dense, start at zero and
  increase strictly; and the text of every chunk is non-empty after trimming.
\<close>

theorem chunk_text_ids_dense:
  "k < length (chunk_text txt chunk_size overlap) \<Longrightarrow>
     c_id (chunk_text txt chunk_size overlap ! k) = int k \<and>
     strip (c_text (chunk_text txt chunk_size overlap ! k)) \<noteq> []"
  using chunk_text_ok unfolding chunks_ok_def by blast

theorem chunk_text_ids_dense_witness:
  "(1::nat) < length (chunk_text ''ab\<newline>\<newline>cd'' 3 200) \<and>
   c_id (chunk_text ''ab\<newline>\<newline>cd'' 3 200 ! 1) = 1 \<and>
   strip (c_text (chunk_text ''ab\<newline>\<newline>cd'' 3 200 ! 1)) \<noteq> []"
proof -
  have h: "(1::nat) < length (chunk_text ''ab\<newline>\<newline>cd'' 3 200)" by code_simp
  from chunk_text_ids_dense [OF h] h show ?thesis by simp
qed

lemma sublist_strip_trimmed: "trimmed q \<Longrightarrow> sublist q cur \<Longrightarrow> sublist q (strip cur)"
  by (auto simp: trimmed_def intro: sublist_strip)

lemma sublist_extend: "sublist q cur \<Longrightarrow> sublist q (cur @ x)"
  by (metis append.assoc sublist_def)

lemma whole_in_step_old:
  assumes "whole_in q st" "trimmed q"
  shows "whole_in q (chunk_step chunk_size overlap st p)"
proof -
  obtain chunks cur cid where st: "st = (chunks, cur, cid)" by (cases st) auto
  show ?thesis
  proof (cases "flushes chunk_size cur p")
    case True
    show ?thesis
      using assms(1) sublist_strip_trimmed [OF assms(2), of cur]
      unfolding st chunk_step_flush [OF True]
      by (auto simp: whole_in_def mk_chunk_def)
  next
    case False
    show ?thesis
      using assms(1) sublist_extend [of q cur]
      unfolding st chunk_step_append [OF False]
      by (auto simp: whole_in_def)
  qed
qed

lemma whole_in_step_new: "whole_in p (chunk_step chunk_size overlap st p)"
proof -
  obtain chunks cur cid where st: "st = (chunks, cur, cid)" by (cases st) auto
  obtain a where a: "next_buffer overlap cur p = a @ p"
    using next_buffer_has_paragraph by blast
  show ?thesis
  proof (cases "flushes chunk_size cur p")
    case True
    show ?thesis
      unfolding st chunk_step_flush [OF True] a by (simp add: whole_in_def)
  next
    case False
    have "sublist p (cur @ ''\<newline>\<newline>'' @ p)"
      by (metis append_assoc sublist_append_leftI)
    then show ?thesis
      unfolding st chunk_step_append [OF False] by (simp add: whole_in_def)
  qed
qed

lemma whole_in_loop_old:
  assumes "whole_in q st" "trimmed q"
  shows "whole_in q (chunk_loop chunk_size overlap st ps)"
  using assms unfolding chunk_loop_def
proof (induction ps arbitrary: st)
  case Nil
  then show ?case by simp
next
  case (Cons p ps)
  from Cons.prems have "whole_in q (chunk_step chunk_size overlap st p)"
    by (intro whole_in_step_old)
  with Cons show ?case by (simp del: chunk_step.simps)
qed

lemma whole_in_loop:
  assumes "q \<in> set ps" "trimmed q"
  shows "whole_in q (chunk_loop chunk_size overlap st ps)"
  using assms
proof (induction ps arbitrary: st)
  case Nil
  then show ?case by simp
next
  case (Cons p ps)
  show ?case
  proof (cases "q = p")
    case True
    have "whole_in q (chunk_loop chunk_size overlap (chunk_step chunk_size overlap st p) ps)"
      using whole_in_step_new Cons.prems(2) unfolding True by (intro whole_in_loop_old)
    then show ?thesis by (simp add: chunk_loop_def del: chunk_step.simps)
  next
    case False
    with Cons show ?thesis by (simp add: chunk_loop_def del: chunk_step.simps)
  qed
qed

lemma paragraph_whole:
  assumes "p \<in> set (paragraphs txt)"
  shows "\<exists>c\<in>set (chunk_text txt chunk_size overlap). sublist p (c_text c)"
proof -
  obtain chunks cur cid where
    l: "chunk_loop chunk_size overlap ([], [], 0) (paragraphs txt) = (chunks, cur, cid)"
    by (cases "chunk_loop chunk_size overlap ([], [], 0) (paragraphs txt)") auto
  have t: "trimmed p" using paragraphs_ends [OF assms] by (simp add: trimmed_def)
  then have "whole_in p (chunk_loop chunk_size overlap ([], [], 0) (paragraphs txt))"
    using assms by (intro whole_in_loop)
  then consider "\<exists>c\<in>set chunks. sublist p (c_text c)" | "sublist p cur"
    by (auto simp: l whole_in_def)
  then show ?thesis
  proof cases
    case 1
    then show ?thesis by (auto simp: chunk_text_def l)
  next
    case 2
    then have "cur \<noteq> []" using t by (auto simp: trimmed_def)
    moreover have "sublist p (c_text (mk_chunk cid cur))"
      using sublist_strip_trimmed [OF t 2] by (simp add: mk_chunk_def)
    ultimately show ?thesis by (auto simp: chunk_text_def l)
  qed
qed


text \<open>
  Claim C6. When every trimmed, non-empty paragraph of the input is shorter than
  \<open>chunk_size\<close>, no paragraph is split across chunks: each one is a contiguous part of the
  text of some returned chunk. (\<open>paragraph_whole\<close> shows that the bound on the lengths is not
  needed: the chunker never cuts inside a paragraph.)
\<close>

theorem paragraphs_never_split:
  assumes "\<forall>q\<in>set (paragraphs txt). int (length q) < chunk_size"
    and "p \<in> set (paragraphs txt)"
  shows "\<exists>c\<in>set (chunk_text txt chunk_size overlap). sublist p (c_text c)"
  using assms(2) by (rule paragraph_whole)

theorem paragraphs_never_split_witness:
  "list_all (\<lambda>q. int (length q) < 3) (paragraphs ''ab\<newline>\<newline>cd'') \<and>
   ''cd'' \<in> set (paragraphs ''ab\<newline>\<newline>cd'') \<and>
   (\<exists>c\<in>set (chunk_text ''ab\<newline>\<newline>cd'' 3 200). sublist ''cd'' (c_text c))"
proof -
  have ps: "paragraphs ''ab\<newline>\<newline>cd'' = [''ab'', ''cd'']" by code_simp
  have h1: "\<forall>q\<in>set (paragraphs ''ab\<newline>\<newline>cd''). int (length q) < 3"
    unfolding ps by simp
  have h2: "''cd'' \<in> set (paragraphs ''ab\<newline>\<newline>cd'')"
    unfolding ps by simp
  from paragraphs_never_split [OF h1 h2] h1 h2 show ?thesis by (simp add: list_all_iff)
qed

section \<open>Chunker: overlap\<close>

lemma split_ws_no_empty_word: "[] \<notin> set (split_ws s)"
  by (induction s rule: split_ws.induct) (auto split: list.splits)

lemma join_nonempty: "ws \<noteq> [] \<Longrightarrow> [] \<notin> set ws \<Longrightarrow> join sep ws \<noteq> []"
  by (induction sep ws rule: join.induct) auto

lemma slice_from_trailing:
  assumes "0 < n"
  shows "slice_from ws (- n) = drop (length ws - nat n) ws"
proof -
  have "nat (max (int (length ws) - n) 0) = length ws - nat n" using assms by linarith
  with assms show ?thesis by (simp add: slice_from_def)
qed

lemma tenth_pos: "0 < (overlap::int) \<Longrightarrow> overlap mod 10 = 0 \<Longrightarrow> 0 < overlap div 10"
proof -
  assume a: "0 < overlap" "overlap mod 10 = 0"
  then obtain k where k: "overlap = 10 * k" by (auto simp: mod_eq_0_iff_dvd)
  with a show ?thesis by simp
qed

lemma tenth_neg: "(overlap::int) mod 10 = 0 \<Longrightarrow> (- overlap) div 10 = - (overlap div 10)"
proof -
  assume a: "overlap mod 10 = 0"
  then obtain k where k: "overlap = 10 * k" by (auto simp: mod_eq_0_iff_dvd)
  have "- (10 * k) = 10 * (- k)" by simp
  then show ?thesis unfolding k by (simp only: nonzero_mult_div_cancel_left)
qed

lemma overlap_text_seed:
  assumes "0 < overlap" "overlap mod 10 = 0" "int (length (split_ws cur)) > overlap div 10"
  shows "overlap_text overlap cur =
           join '' '' (drop (length (split_ws cur) - nat (overlap div 10)) (split_ws cur))"
    and "overlap_text overlap cur \<noteq> []"
proof -
  let ?ws = "split_ws cur" and ?n = "overlap div 10"
  from assms(1,2) have n: "0 < ?n" by (rule tenth_pos)
  from assms(2) have neg: "(- overlap) div 10 = - ?n" by (rule tenth_neg)
  show eq: "overlap_text overlap cur = join '' '' (drop (length ?ws - nat ?n) ?ws)"
    using assms(3) by (simp add: overlap_text_def Let_def neg slice_from_trailing [OF n])
  have "drop (length ?ws - nat ?n) ?ws \<noteq> []" using assms(3) n by simp
  moreover have "[] \<notin> set (drop (length ?ws - nat ?n) ?ws)"
    using split_ws_no_empty_word by (metis in_set_dropD)
  ultimately show "overlap_text overlap cur \<noteq> []"
    unfolding eq by (rule join_nonempty)
qed

text \<open>
  Claim C1, as amended. Let \<open>overlap\<close> be a positive multiple of ten. At every flush in the
  middle of the text, the flushed buffer becomes the next chunk, and the buffer that follows
  depends on the number of whitespace-separated words of the flushed one: with more than
  \<open>overlap/10\<close> words, it is the last \<open>overlap/10\<close> of them joined by single spaces, a space,
  and the paragraph; with \<open>overlap/10\<close> words or fewer, nothing is carried over and it is the
  paragraph alone.
\<close>

theorem flush_overlap_seed:
  assumes "flushes chunk_size cur p" "0 < overlap" "overlap mod 10 = 0"
  shows "chunk_step chunk_size overlap (chunks, cur, cid) p =
           (chunks @ [mk_chunk cid cur],
            (if int (length (split_ws cur)) > overlap div 10
             then join '' '' (drop (length (split_ws cur) - nat (overlap div 10)) (split_ws cur))
                    @ '' '' @ p
             else p),
            cid + 1)"
proof (cases "int (length (split_ws cur)) > overlap div 10")
  case True
  from overlap_text_seed [OF assms(2,3) True] True show ?thesis
    unfolding chunk_step_flush [OF assms(1)] by (simp add: next_buffer_def)
next
  case False
  then have "overlap_text overlap cur = []" by (simp add: overlap_text_def)
  with False show ?thesis
    unfolding chunk_step_flush [OF assms(1)] by (simp add: next_buffer_def)
qed

theorem flush_overlap_seed_witness:
  "flushes 3 ''a b c'' ''cd'' \<and> (0::int) < 20 \<and> (20::int) mod 10 = 0 \<and>
   chunk_step 3 20 ([], ''a b c'', 0) ''cd'' = ([mk_chunk 0 ''a b c''], ''b c cd'', 1)"
proof -
  have f: "flushes 3 ''a b c'' ''cd''" by code_simp
  have w: "split_ws ''a b c'' = [''a'', ''b'', ''c'']" by code_simp
  have "chunk_step 3 20 ([], ''a b c'', 0) ''cd'' = ([mk_chunk 0 ''a b c''], ''b c cd'', 1)"
    using flush_overlap_seed [OF f, of 20 "[]" 0] by (simp only: w) simp
  with f show ?thesis by simp
qed



text \<open>
  Claim C1 as stated fails on a flushed buffer of at most \<open>overlap/10\<close> words. With the default
  \<open>overlap = 200\<close>, the one-word buffer \<open>ab\<close> is flushed and the next buffer is \<open>cd\<close>: the
  trailing words of \<open>ab\<close> are not carried over, though the overlap text of the specification,
  \<open>ab\<close>, is not empty.
\<close>

theorem flush_short_buffer_counterexample:
  "flushes 3 ''ab'' ''cd'' \<and>
   fst (snd (chunk_step 3 200 ([], ''ab'', 0) ''cd'')) = ''cd'' \<and>
   spec_next_buffer 200 ''ab'' ''cd'' = ''ab cd''"
  by (simp add: flushes_def next_buffer_def overlap_text_def spec_next_buffer_def
        spec_overlap_seed_def is_space_def)

section \<open>Rule-based responder\<close>

lemma sublist_if: "sublist x a \<Longrightarrow> sublist x b \<Longrightarrow> sublist x (if c then a else b)"
  by simp

lemma cite_mid: "sublist ids (a @ ids @ b)"
  by (rule sublist_appendI)

lemma digits_table:
  "\<forall>d\<in>set [0..<10]. digit_val (digit_char d) = d \<and> digit_char d \<noteq> CHR ''-''"
  by code_simp

lemma digit_val_digit_char: "d < 10 \<Longrightarrow> digit_val (digit_char d) = d"
  using digits_table by simp

lemma digit_char_not_minus: "d < 10 \<Longrightarrow> digit_char d \<noteq> CHR ''-''"
  using digits_table by simp

lemma nat_of_str_str_nat: "nat_of_str (str_nat n) = n"
proof (induction n rule: str_nat.induct)
  case (1 n)
  show ?case
  proof (cases "n < 10")
    case True
    then show ?thesis
      by (simp add: str_nat.simps [of n] nat_of_str_def digit_val_digit_char)
  next
    case False
    with 1 have "nat_of_str (str_nat (n div 10)) = n div 10" by simp
    then show ?thesis
      using False
      by (simp add: str_nat.simps [of n] nat_of_str_def digit_val_digit_char)
  qed
qed

lemma str_nat_first: "\<exists>c cs. str_nat n = c # cs \<and> c \<noteq> CHR ''-''"
proof (induction n rule: str_nat.induct)
  case (1 n)
  show ?case
  proof (cases "n < 10")
    case True
    then show ?thesis by (simp add: str_nat.simps [of n] digit_char_not_minus)
  next
    case False
    with 1 obtain c cs where "str_nat (n div 10) = c # cs" "c \<noteq> CHR ''-''" by blast
    with False show ?thesis by (simp add: str_nat.simps [of n])
  qed
qed

lemma int_of_str_str_int: "int_of_str (str_int i) = i"
proof (cases "i < 0")
  case True
  then show ?thesis by (simp add: str_int_def int_of_str_def nat_of_str_str_nat)
next
  case False
  obtain c cs where s: "str_nat (nat i) = c # cs" "c \<noteq> CHR ''-''"
    using str_nat_first by blast
  have "nat_of_str (c # cs) = nat i" using nat_of_str_str_nat [of "nat i"] s by simp
  with False s show ?thesis by (simp add: str_int_def int_of_str_def)
qed

lemma sublist_join: "x \<in> set xs \<Longrightarrow> sublist x (join sep xs)"
proof (induction sep xs rule: join.induct)
  case (1 sep)
  then show ?case by simp
next
  case (2 sep y)
  then show ?case by simp
next
  case (3 sep y z zs)
  show ?case
  proof (cases "x = y")
    case True
    then show ?thesis by simp
  next
    case False
    with 3 have "sublist x (join sep (z # zs))" by simp
    then obtain a b where "join sep (z # zs) = a @ x @ b" by (auto simp: sublist_def)
    then have "join sep (y # z # zs) = (y @ sep @ a) @ x @ b" by simp
    then show ?thesis unfolding sublist_def by blast
  qed
qed

lemma sublist_trans: "sublist a b \<Longrightarrow> sublist b c \<Longrightarrow> sublist a c"
  by (rule sublist_order.order.trans)

lemma join_starts: "\<exists>r. join sep (z # zs) = z @ r"
  by (cases zs) auto

lemma join_adjacent:
  "Suc k < length xs \<Longrightarrow> sublist (xs ! k @ sep @ xs ! Suc k) (join sep xs)"
proof (induction sep xs arbitrary: k rule: join.induct)
  case (1 sep)
  then show ?case by simp
next
  case (2 sep y)
  then show ?case by simp
next
  case (3 sep y z zs)
  show ?case
  proof (cases k)
    case 0
    obtain r where "join sep (z # zs) = z @ r" using join_starts by blast
    then have "join sep (y # z # zs) = [] @ (y @ sep @ z) @ r" by simp
    then show ?thesis unfolding 0 sublist_def by (simp del: join.simps) blast
  next
    case (Suc j)
    with "3.prems" have "Suc j < length (z # zs)" by simp
    from "3.IH" [OF this] obtain a b where
      "join sep (z # zs) = a @ ((z # zs) ! j @ sep @ (z # zs) ! Suc j) @ b"
      by (auto simp: sublist_def)
    then have "join sep (y # z # zs) =
        (y @ sep @ a) @ ((y # z # zs) ! k @ sep @ (y # z # zs) ! Suc k) @ b"
      by (simp add: Suc)
    then show ?thesis unfolding sublist_def by blast
  qed
qed

lemma cited_list:
  "sublist (join '', '' (map (\<lambda>chunk. str_int (c_id chunk)) relevant_chunks))
     (generate_intelligent_answer question relevant_chunks context)"
  unfolding generate_intelligent_answer_def Let_def clause_ids_def
  by (intro sublist_if cite_mid)

text \<open>
  Claim C7. For every question, every list of retrieved chunks (the empty one too) and every
  context, the answer of the rule-based responder contains the decimal ids of all the retrieved
  chunks, in retrieval order and separated by a comma and a space. So every single chunk's id
  stands in the answer, the id can be read back from its decimal form, and the ids of two
  chunks retrieved one after the other stand next to each other, in that order. This holds in every
  branch of the keyword classification, the default one for a question that matches no
  category among them.
\<close>

theorem fallback_cites_every_chunk:
  "sublist (join '', '' (map (\<lambda>chunk. str_int (c_id chunk)) relevant_chunks))
     (generate_intelligent_answer question relevant_chunks context) \<and>
   (\<forall>chunk\<in>set relevant_chunks.
      sublist (str_int (c_id chunk)) (generate_intelligent_answer question relevant_chunks context) \<and>
      int_of_str (str_int (c_id chunk)) = c_id chunk) \<and>
   (\<forall>k. Suc k < length relevant_chunks \<longrightarrow>
      sublist (str_int (c_id (relevant_chunks ! k)) @ '', '' @ str_int (c_id (relevant_chunks ! Suc k)))
        (generate_intelligent_answer question relevant_chunks context))"
proof (intro conjI ballI allI impI)
  show l: "sublist (join '', '' (map (\<lambda>chunk. str_int (c_id chunk)) relevant_chunks))
     (generate_intelligent_answer question relevant_chunks context)"
    by (rule cited_list)
  {
    fix chunk assume "chunk \<in> set relevant_chunks"
    then have "str_int (c_id chunk) \<in> set (map (\<lambda>chunk. str_int (c_id chunk)) relevant_chunks)"
      by simp
    then have "sublist (str_int (c_id chunk))
        (join '', '' (map (\<lambda>chunk. str_int (c_id chunk)) relevant_chunks))"
      by (rule sublist_join)
    then show "sublist (str_int (c_id chunk))
        (generate_intelligent_answer question relevant_chunks context)"
      using l by (rule sublist_trans)
    show "int_of_str (str_int (c_id chunk)) = c_id chunk" by (rule int_of_str_str_int)
  }
  fix k assume k: "Suc k < length relevant_chunks"
  let ?ids = "map (\<lambda>chunk. str_int (c_id chunk)) relevant_chunks"
  from k have "Suc k < length ?ids" by simp
  then have "sublist (?ids ! k @ '', '' @ ?ids ! Suc k) (join '', '' ?ids)"
    by (rule join_adjacent)
  with k have "sublist (str_int (c_id (relevant_chunks ! k)) @ '', '' @ str_int (c_id (relevant_chunks ! Suc k)))
      (join '', '' ?ids)" by simp
  then show "sublist (str_int (c_id (relevant_chunks ! k)) @ '', '' @ str_int (c_id (relevant_chunks ! Suc k)))
      (generate_intelligent_answer question relevant_chunks context)"
    using l by (rule sublist_trans)
qed

theorem fallback_cites_every_chunk_witness:
  "sublist ''3, 12''
     (generate_intelligent_answer ''How do I file a claim?''
        [\<lparr>c_id = 3, c_text = ''a'', c_source = ''chunk_3'', similarity_score = None, score = Some 1\<rparr>,
         \<lparr>c_id = 12, c_text = ''b'', c_source = ''chunk_12'', similarity_score = None, score = Some 1\<rparr>]
        ''Clause 3: a'') \<and>
   sublist ''12''
     (generate_intelligent_answer ''How do I file a claim?''
        [\<lparr>c_id = 3, c_text = ''a'', c_source = ''chunk_3'', similarity_score = None, score = Some 1\<rparr>,
         \<lparr>c_id = 12, c_text = ''b'', c_source = ''chunk_12'', similarity_score = None, score = Some 1\<rparr>]
        ''Clause 3: a'') \<and>
   int_of_str ''12'' = 12"
proof -
  let ?c3 = "\<lparr>c_id = 3, c_text = ''a'', c_source = ''chunk_3'', similarity_score = None, score = Some (1::real)\<rparr>"
  let ?c12 = "\<lparr>c_id = 12, c_text = ''b'', c_source = ''chunk_12'', similarity_score = None, score = Some (1::real)\<rparr>"
  have j: "join '', '' (map (\<lambda>chunk. str_int (c_id chunk)) [?c3, ?c12]) = ''3, 12''"
    by code_simp
  have s: "str_int (c_id ?c12) = ''12''" by code_simp
  have m: "?c12 \<in> set [?c3, ?c12]" by simp
  from fallback_cites_every_chunk [of "[?c3, ?c12]" "''How do I file a claim?''" "''Clause 3: a''"]
  have "sublist (join '', '' (map (\<lambda>chunk. str_int (c_id chunk)) [?c3, ?c12]))
          (generate_intelligent_answer ''How do I file a claim?'' [?c3, ?c12] ''Clause 3: a'')"
    and "sublist (str_int (c_id ?c12))
          (generate_intelligent_answer ''How do I file a claim?'' [?c3, ?c12] ''Clause 3: a'')"
    and "int_of_str (str_int (c_id ?c12)) = c_id ?c12"
    using m by blast+
  then show ?thesis unfolding j s by simp
qed


section \<open>Question processing leaves the caches and the older heap cells alone\<close>

lemma keeps_refl: "keeps n s s"
  by (simp add: keeps_def new_events_def)

lemma new_events_append:
  assumes "prefix (trace s) (trace s1)" "prefix (trace s1) (trace s2)"
  shows "new_events s s2 = new_events s s1 @ new_events s1 s2"
proof -
  from assms obtain e1 e2 where "trace s1 = trace s @ e1" "trace s2 = trace s1 @ e2"
    by (auto simp: prefix_def)
  then show ?thesis by (simp add: new_events_def)
qed

lemma keeps_trans:
  assumes "keeps n s s1" "keeps n s1 s2"
  shows "keeps n s s2"
proof -
  from assms have p: "prefix (trace s) (trace s1)" "prefix (trace s1) (trace s2)"
    by (auto simp: keeps_def)
  from assms show ?thesis
    unfolding keeps_def new_events_append [OF p]
    by (auto intro: prefix_order.trans)
qed

lemma keeps_trace_call: "\<not> is_ingest ev \<Longrightarrow> keeps n s (trace_call ev s)"
  by (simp add: keeps_def trace_call_def new_events_def)

lemma keeps_copy_chunk:
  assumes "copy_chunk a s = (chunk, s1)" "n \<le> length (heap s)"
  shows "keeps n s s1" "chunk = length (heap s)" "length (heap s1) = Suc (length (heap s))"
  using assms by (auto simp: copy_chunk_def keeps_def new_events_def)

lemma keeps_update_chunk: "n \<le> a \<Longrightarrow> keeps n s (update_chunk a f s)"
  by (simp add: update_chunk_def keeps_def new_events_def)

lemma collect_chunks_keeps:
  assumes "collect_chunks s chunks hits rel = (s', r)" "n \<le> length (heap s)" "\<forall>a\<in>set rel. n \<le> a"
  shows "keeps n s s' \<and> (\<forall>rs. r = Inr rs \<longrightarrow> (\<forall>a\<in>set rs. n \<le> a))"
  using assms
proof (induction s chunks hits rel rule: collect_chunks.induct)
  case (1 s chunks relevant_chunks)
  then show ?case by (auto simp: keeps_refl)
next
  case (2 s chunks sc idx hits relevant_chunks)
  show ?case
  proof (cases "idx \<noteq> - 1")
    case False
    with 2 show ?thesis by simp
  next
    case True
    show ?thesis
    proof (cases "list_index chunks idx")
      case (Inl e)
      with True 2 show ?thesis by (auto simp: keeps_refl)
    next
      case (Inr a)
      obtain chunk s1 where c: "copy_chunk a s = (chunk, s1)" by (cases "copy_chunk a s") auto
      let ?s2 = "update_chunk chunk (\<lambda>c. c\<lparr>similarity_score := Some sc\<rparr>) s1"
      from keeps_copy_chunk [OF c "2.prems"(2)]
      have k1: "keeps n s s1" and ch: "chunk = length (heap s)"
        and l1: "length (heap s1) = Suc (length (heap s))" by auto
      from ch "2.prems"(2) have nc: "n \<le> chunk" by simp
      then have k2: "keeps n s1 ?s2" by (rule keeps_update_chunk)
      have run: "collect_chunks ?s2 chunks hits (relevant_chunks @ [chunk]) = (s', r)"
        using "2.prems"(1) True Inr c by simp
      have len: "n \<le> length (heap ?s2)"
        using l1 "2.prems"(2) by (simp add: update_chunk_def)
      have rel: "\<forall>a\<in>set (relevant_chunks @ [chunk]). n \<le> a"
        using "2.prems"(3) nc by auto
      from "2.IH"(1) [OF True Inr c [symmetric] run len rel]
      have "keeps n ?s2 s'" and res: "\<forall>rs. r = Inr rs \<longrightarrow> (\<forall>a\<in>set rs. n \<le> a)" by auto
      with k1 k2 have "keeps n s s'" by (blast intro: keeps_trans)
      with res show ?thesis by simp
    qed
  qed
qed


lemma retrieve_keeps:
  assumes "retrieve_relevant_chunks env s q index chunks k = (s', r)" "n \<le> length (heap s)"
  shows "keeps n s s' \<and> (\<forall>rs. r = Inr rs \<longrightarrow> (\<forall>a\<in>set rs. n \<le> a))"
proof -
  let ?s1 = "trace_call (EmbedQuery q) s"
  let ?s2 = "trace_call Search ?s1"
  have k1: "keeps n s ?s1" by (simp add: keeps_trace_call)
  have k2: "keeps n ?s1 ?s2" by (simp add: keeps_trace_call)
  show ?thesis
  proof (cases "get_embeddings env [q]")
    case (Inl e)
    with assms(1) k1 show ?thesis by (auto simp: retrieve_relevant_chunks_def)
  next
    case (Inr qe)
    show ?thesis
    proof (cases "faiss_search env index qe k")
      case (Inl e)
      with assms(1) Inr k1 k2 show ?thesis
        by (auto simp: retrieve_relevant_chunks_def Let_def intro: keeps_trans)
    next
      case hits: (Inr hits)
      from assms(1) Inr hits have run: "collect_chunks ?s2 chunks hits [] = (s', r)"
        by (simp add: retrieve_relevant_chunks_def Let_def)
      have len: "n \<le> length (heap ?s2)" using assms(2) by (simp add: trace_call_def)
      from collect_chunks_keeps [OF run len]
      have "keeps n ?s2 s'" and res: "\<forall>rs. r = Inr rs \<longrightarrow> (\<forall>a\<in>set rs. n \<le> a)" by auto
      with k1 k2 have "keeps n s s'" by (blast intro: keeps_trans)
      with res show ?thesis by simp
    qed
  qed
qed

lemma clean_chunks_keeps:
  assumes "\<forall>a\<in>set rel. n \<le> a"
  shows "keeps n s (clean_chunks s rel)"
  using assms unfolding clean_chunks_def
proof (induction rel arbitrary: s)
  case Nil
  then show ?case by (simp add: keeps_refl)
next
  case (Cons a rel)
  from Cons.prems have "keeps n s (update_chunk a clean_chunk s)"
    by (intro keeps_update_chunk) simp
  moreover from Cons have
    "keeps n (update_chunk a clean_chunk s)
       (foldl (\<lambda>s chunk. update_chunk chunk clean_chunk s) (update_chunk a clean_chunk s) rel)"
    by simp
  ultimately show ?case by (auto intro: keeps_trans)
qed

lemma answer_question_keeps:
  assumes "answer_question env s q cs = (s', a)"
  shows "keeps n s s'"
proof -
  let ?s1 = "trace_call (AnswerQuestion q) s"
  have k1: "keeps n s ?s1" by (simp add: keeps_trace_call)
  have k2: "keeps n ?s1 (trace_call Generate ?s1)" by (simp add: keeps_trace_call)
  from k1 k2 have k3: "keeps n s (trace_call Generate ?s1)" by (rule keeps_trans)
  from assms have "s' = ?s1 \<or> s' = trace_call Generate ?s1"
    by (auto simp: answer_question_def Let_def split: option.splits sum.splits)
  with k1 k3 show ?thesis by auto
qed

lemma question_step_keeps:
  assumes "question_step env index chunks (s, answers, srcs) q = (s', r)" "n \<le> length (heap s)"
  shows "keeps n s s'"
proof -
  obtain s1 r1 where ret: "retrieve_relevant_chunks env s q index chunks 5 = (s1, r1)"
    by (cases "retrieve_relevant_chunks env s q index chunks 5") auto
  from retrieve_keeps [OF ret assms(2)]
  have k1: "keeps n s s1" and res: "\<forall>rs. r1 = Inr rs \<longrightarrow> (\<forall>a\<in>set rs. n \<le> a)" by auto
  show ?thesis
  proof (cases r1)
    case (Inl e)
    with assms(1) ret k1 show ?thesis by simp
  next
    case (Inr rel)
    show ?thesis
    proof (cases "rel = []")
      case True
      with assms(1) ret Inr k1 show ?thesis by simp
    next
      case False
      let ?s2 = "clean_chunks s1 rel"
      obtain s3 a where ans: "answer_question env ?s2 q (map (\<lambda>a. heap ?s2 ! a) rel) = (s3, a)"
        by (cases "answer_question env ?s2 q (map (\<lambda>a. heap ?s2 ! a) rel)") auto
      from res Inr have k2: "keeps n s1 ?s2" by (intro clean_chunks_keeps) simp
      from ans have k3: "keeps n ?s2 s3" by (rule answer_question_keeps)
      from assms(1) ret Inr False ans have "s' = s3" by (simp add: Let_def)
      with k1 k2 k3 show ?thesis by (blast intro: keeps_trans)
    qed
  qed
qed

lemma keeps_length: "keeps n s s' \<Longrightarrow> length (heap s) \<le> length (heap s')"
  by (simp add: keeps_def)

lemma question_loop_keeps:
  assumes "question_loop env index chunks (s, answers, srcs) qs = (s', r)" "n \<le> length (heap s)"
  shows "keeps n s s'"
  using assms
proof (induction qs arbitrary: s answers srcs)
  case Nil
  then show ?case by (simp add: keeps_refl)
next
  case (Cons q qs)
  obtain s1 r1 where st: "question_step env index chunks (s, answers, srcs) q = (s1, r1)"
    by (cases "question_step env index chunks (s, answers, srcs) q") auto
  from question_step_keeps [OF st Cons.prems(2)] have k1: "keeps n s s1" .
  show ?case
  proof (cases r1)
    case (Inl e)
    with Cons.prems(1) st k1 show ?thesis by (simp del: question_step.simps)
  next
    case (Inr p)
    obtain a1 c1 where p: "p = (a1, c1)" by (cases p) auto
    from Cons.prems(1) st Inr p have run: "question_loop env index chunks (s1, a1, c1) qs = (s', r)"
      by (simp del: question_step.simps)
    from k1 Cons.prems(2) have "n \<le> length (heap s1)" by (auto dest: keeps_length)
    from Cons.IH [OF run this] k1 show ?thesis by (blast intro: keeps_trans)
  qed
qed

lemma resolve_hit:
  assumes "document_cache s (md5_hex env url) \<noteq> None"
  shows "fst (resolve_document env s url) = s"
  using assms by (auto simp: resolve_document_def Let_def split: option.splits)

lemma process_hit_keeps:
  assumes "document_cache s (md5_hex env url) \<noteq> None"
    and "process_insurance_query env s url qs = (s', r)"
  shows "keeps (length (heap s)) s s'"
proof -
  obtain s1 r1 where res: "resolve_document env s url = (s1, r1)"
    by (cases "resolve_document env s url") auto
  with resolve_hit [OF assms(1)] have s1: "s1 = s" by simp
  show ?thesis
  proof (cases r1)
    case (Inl e)
    with assms(2) res s1 show ?thesis by (simp add: process_insurance_query_def keeps_refl)
  next
    case (Inr p)
    obtain index chunks where p: "p = (index, chunks)" by (cases p) auto
    obtain s2 r2 where run: "question_loop env index chunks (s, [], []) qs = (s2, r2)"
      by (cases "question_loop env index chunks (s, [], []) qs") auto
    from question_loop_keeps [OF run] have "keeps (length (heap s)) s s2" by simp
    moreover from assms(2) res s1 Inr p run have "s' = s2"
      by (auto simp: process_insurance_query_def split: sum.splits prod.splits)
    ultimately show ?thesis by simp
  qed
qed


section \<open>Ingestion and the caches\<close>


lemma ingest_heap:
  assumes "ingest env s url h = (s', r)"
  shows "prefix (heap s) (heap s')"
  using assms
  by (auto simp: ingest_def Let_def trace_call_def split: sum.splits if_splits prod.splits)

lemma ingest_caches:
  assumes "ingest env s url h = (s', r)"
  shows "(\<forall>e. r = Inl e \<longrightarrow>
            document_cache s' = document_cache s \<and> vector_store_cache s' = vector_store_cache s) \<and>
         (\<forall>u. r = Inr u \<longrightarrow>
            (\<exists>entry index. document_cache s' = (document_cache s)(h \<mapsto> entry) \<and>
               vector_store_cache s' = (vector_store_cache s)(h \<mapsto> index)))"
  using assms
  by (auto simp: ingest_def Let_def trace_call_def split: sum.splits if_splits prod.splits)

lemma ingest_agree:
  assumes "ingest env s url h = (s', r)" "caches_agree s"
  shows "caches_agree s'"
proof (cases r)
  case (Inl e)
  with ingest_caches [OF assms(1)] assms(2) show ?thesis by (simp add: caches_agree_def)
next
  case (Inr u)
  with ingest_caches [OF assms(1)] obtain entry index where
    "document_cache s' = (document_cache s)(h \<mapsto> entry)"
    "vector_store_cache s' = (vector_store_cache s)(h \<mapsto> index)" by blast
  with assms(2) show ?thesis by (simp add: caches_agree_def)
qed

lemma resolve_cases:
  assumes "resolve_document env s url = (s1, r1)"
  shows "(document_cache s (md5_hex env url) \<noteq> None \<and> s1 = s) \<or>
         (document_cache s (md5_hex env url) = None \<and>
          (\<exists>r. ingest env s url (md5_hex env url) = (s1, r)))"
  using assms
  by (auto simp: resolve_document_def Let_def split: option.splits sum.splits prod.splits if_splits)


lemma resolve_agree:
  assumes "resolve_document env s url = (s1, r1)" "caches_agree s"
  shows "caches_agree s1"
  using resolve_cases [OF assms(1)] ingest_agree assms(2) by blast

lemma process_split:
  assumes "process_insurance_query env s url qs = (s', r)"
  shows "\<exists>s1 r1. resolve_document env s url = (s1, r1) \<and> keeps (length (heap s1)) s1 s'"
proof -
  obtain s1 r1 where res: "resolve_document env s url = (s1, r1)"
    by (cases "resolve_document env s url") auto
  have "keeps (length (heap s1)) s1 s'"
  proof (cases r1)
    case (Inl e)
    with assms res show ?thesis by (simp add: process_insurance_query_def keeps_refl)
  next
    case (Inr p)
    obtain index chunks where p: "p = (index, chunks)" by (cases p) auto
    obtain s2 r2 where run: "question_loop env index chunks (s1, [], []) qs = (s2, r2)"
      by (cases "question_loop env index chunks (s1, [], []) qs") auto
    from question_loop_keeps [OF run] have "keeps (length (heap s1)) s1 s2" by simp
    moreover from assms res Inr p run have "s' = s2"
      by (auto simp: process_insurance_query_def split: sum.splits prod.splits)
    ultimately show ?thesis by simp
  qed
  with res show ?thesis by blast
qed

lemma process_agree:
  assumes "caches_agree s"
  shows "caches_agree (fst (process_insurance_query env s url qs))"
proof -
  obtain s' r where run: "process_insurance_query env s url qs = (s', r)"
    by (cases "process_insurance_query env s url qs") auto
  from process_split [OF run] obtain s1 r1 where
    res: "resolve_document env s url = (s1, r1)" and k: "keeps (length (heap s1)) s1 s'" by blast
  from resolve_agree [OF res assms] k show ?thesis
    by (simp add: run caches_agree_def keeps_def)
qed








text \<open>
  Claim C4. On a cache miss, when the download succeeds and the extracted text is empty or only
  whitespace, the call fails with status 400 and the detail \<open>No text found in PDF\<close>. The
  state it leaves is the state before the call with two more trace entries, the download and
  the extraction: no chunking, embedding or index building ran, no question was looked at and
  no answer exists, and both caches and the heap are as before.
\<close>

theorem empty_text_aborts:
  assumes "document_cache s (md5_hex env url) = None"
    and "http_get env url = Inr pdf"
    and "extract_text_from_pdf env pdf = Inr txt"
    and "strip txt = []"
  shows "process_insurance_query env s url qs =
           (s\<lparr>trace := trace s @ [Ingest Download (md5_hex env url),
                                    Ingest ExtractText (md5_hex env url)]\<rparr>,
            Inl (HTTPException 400 ''No text found in PDF''))"
  using assms
  by (simp add: process_insurance_query_def resolve_document_def ingest_def download_pdf_def
      Let_def trace_call_def to_http_def)

theorem empty_text_aborts_witness:
  "document_cache (init_state :: string list state) (md5_hex demo_env '' '') = None \<and>
   http_get demo_env '' '' = Inr '' '' \<and>
   extract_text_from_pdf demo_env '' '' = Inr '' \<newline>'' \<and>
   strip '' \<newline>'' = [] \<and>
   process_insurance_query demo_env init_state '' '' [''claim''] =
     (init_state\<lparr>trace := trace (init_state :: string list state) @
         [Ingest Download (md5_hex demo_env '' ''), Ingest ExtractText (md5_hex demo_env '' '')]\<rparr>,
      Inl (HTTPException 400 ''No text found in PDF''))"
proof -
  have h1: "document_cache (init_state :: string list state) (md5_hex demo_env '' '') = None"
    by (simp add: init_state_def)
  have h2: "http_get demo_env '' '' = Inr '' ''" by (simp add: demo_env_def)
  have h3: "extract_text_from_pdf demo_env '' '' = Inr '' \<newline>''"
    by (simp add: extract_text_from_pdf_def demo_env_def add_page_def)
  have h4: "strip '' \<newline>'' = []" by (simp add: strip_def is_space_def)
  from empty_text_aborts [OF h1 h2 h3 h4, of "[''claim'']"] h1 h2 h3 h4 show ?thesis by simp
qed

text \<open>
  Claim C8. On a cache hit the handler reads the stored entry in an unchanged state and works on
  its chunk list. After the call, whatever its outcome, both caches are as before and every
  heap cell that existed before the call holds the same dict: in particular each chunk of the
  cached entry has all its fields unchanged. The score is written to, and the key
  \<open>similarity_score\<close> renamed in, copies at fresh addresses.
\<close>

theorem cache_hit_unchanged:
  assumes "document_cache s (md5_hex env url) = Some entry"
    and "process_insurance_query env s url qs = (s', r)"
  shows "resolve_document env s url =
           (s, case vector_store_cache s (md5_hex env url) of
                 None \<Rightarrow> Inl (key_error (md5_hex env url))
               | Some index \<Rightarrow> Inr (index, d_chunks entry)) \<and>
         document_cache s' = document_cache s \<and>
         vector_store_cache s' = vector_store_cache s \<and>
         take (length (heap s)) (heap s') = heap s \<and>
         (\<forall>a\<in>set (d_chunks entry). a < length (heap s) \<longrightarrow> heap s' ! a = heap s ! a)"
proof -
  from assms(1) have hit: "document_cache s (md5_hex env url) \<noteq> None" by simp
  from process_hit_keeps [OF hit assms(2)] have k: "keeps (length (heap s)) s s'" .
  then have t: "take (length (heap s)) (heap s') = heap s" by (simp add: keeps_def)
  have "heap s' ! a = heap s ! a" if "a < length (heap s)" for a
    using that t by (metis nth_take)
  moreover have "resolve_document env s url =
           (s, case vector_store_cache s (md5_hex env url) of
                 None \<Rightarrow> Inl (key_error (md5_hex env url))
               | Some index \<Rightarrow> Inr (index, d_chunks entry))"
    using assms(1) by (simp add: resolve_document_def Let_def split: option.splits)
  ultimately show ?thesis using k t by (simp add: keeps_def)
qed

theorem cache_hit_unchanged_witness:
  "document_cache (fst (process_insurance_query demo_env init_state ''ab'' [''claim'']))
     (md5_hex demo_env ''ab'') = Some \<lparr>d_chunks = [0], d_text = ''ab\<newline>''\<rparr> \<and>
   document_cache
     (fst (process_insurance_query demo_env
            (fst (process_insurance_query demo_env init_state ''ab'' [''claim''])) ''ab'' [''term''])) =
   document_cache (fst (process_insurance_query demo_env init_state ''ab'' [''claim''])) \<and>
   heap (fst (process_insurance_query demo_env
            (fst (process_insurance_query demo_env init_state ''ab'' [''claim''])) ''ab'' [''term''])) ! 0 =
   heap (fst (process_insurance_query demo_env init_state ''ab'' [''claim''])) ! 0"
proof -
  let ?s1 = "fst (process_insurance_query demo_env init_state ''ab'' [''claim''])"
  have h: "document_cache ?s1 (md5_hex demo_env ''ab'') = Some \<lparr>d_chunks = [0], d_text = ''ab\<newline>''\<rparr>"
    by code_simp
  have l: "0 < length (heap ?s1)" by code_simp
  from cache_hit_unchanged [OF h prod.collapse [symmetric]] h l show ?thesis by simp
qed

lemma reachable_agree: "reachable env s \<Longrightarrow> caches_agree s"
proof (induction rule: reachable.induct)
  case start
  then show ?case by (simp add: caches_agree_def init_state_def)
next
  case (query s doc_url questions)
  from query.IH show ?case by (rule process_agree)
next
  case (clear s)
  then show ?case by (simp add: caches_agree_def clear_cache_def)
qed

text \<open>
  Claim C10. In every state reached from the initial one by calls of the handler (hits, misses,
  successes and failures) and of \<open>clear_cache\<close>, the document cache and the vector-store
  cache have the same keys, so the two numbers of \<open>cache_stats\<close> are equal; and right after
  \<open>clear_cache\<close> both are zero.
\<close>

theorem caches_hold_same_keys:
  assumes "reachable env s"
  shows "dom (document_cache s) = dom (vector_store_cache s) \<and>
         fst (cache_stats s) = snd (cache_stats s) \<and>
         cache_stats (clear_cache s) = (0, 0)"
  using reachable_agree [OF assms]
  by (simp add: caches_agree_def cache_stats_def clear_cache_def)

theorem caches_hold_same_keys_witness:
  "reachable demo_env (fst (process_insurance_query demo_env init_state ''ab'' [''claim''])) \<and>
   dom (document_cache (fst (process_insurance_query demo_env init_state ''ab'' [''claim'']))) =
   dom (vector_store_cache (fst (process_insurance_query demo_env init_state ''ab'' [''claim'']))) \<and>
   cache_stats (clear_cache (fst (process_insurance_query demo_env init_state ''ab'' [''claim'']))) = (0, 0)"
proof -
  have r: "reachable demo_env (fst (process_insurance_query demo_env init_state ''ab'' [''claim'']))"
    by (rule reachable.query [OF reachable.start])
  from caches_hold_same_keys [OF r] r show ?thesis by simp
qed

section \<open>Answers\<close>

lemma collect_chunks_trace:
  "collect_chunks s chunks hits rel = (s', r) \<Longrightarrow> trace s' = trace s"
proof (induction s chunks hits rel rule: collect_chunks.induct)
  case (1 s chunks relevant_chunks)
  then show ?case by simp
next
  case (2 s chunks sc idx hits relevant_chunks)
  then show ?case
    by (auto simp: copy_chunk_def update_chunk_def split: if_splits sum.splits)
qed

lemma retrieve_trace:
  assumes "retrieve_relevant_chunks env s q index chunks k = (s1, Inr rel)"
  shows "trace s1 = trace s @ [EmbedQuery q, Search]"
  using assms collect_chunks_trace
  by (fastforce simp: retrieve_relevant_chunks_def Let_def trace_call_def split: sum.splits)

text \<open>
  Claim C2. When retrieval for a question returns no chunk, the pass of the loop for that
  question ends in the state retrieval left, appends exactly the fixed string to the answers
  and leaves the source chunks as they were. The trace gained the query embedding and the
  search only: \<open>answer_question\<close> was not called.
\<close>

theorem no_chunks_fixed_answer:
  assumes "retrieve_relevant_chunks env s q index chunks 5 = (s1, Inr [])"
  shows "question_step env index chunks (s, answers, all_source_chunks) q =
           (s1, Inr (answers @ [''No relevant information found in the policy document for this question.''],
                     all_source_chunks)) \<and>
         trace s1 = trace s @ [EmbedQuery q, Search]"
  using assms retrieve_trace [OF assms] by (simp add: no_information_def)

theorem no_chunks_fixed_answer_witness:
  "retrieve_relevant_chunks demo_env init_state [] [''ab''] [0] 5 =
     (init_state\<lparr>trace := [EmbedQuery [], Search]\<rparr>, Inr []) \<and>
   question_step demo_env [''ab''] [0] (init_state, [''first''], [7]) [] =
     (init_state\<lparr>trace := [EmbedQuery [], Search]\<rparr>,
      Inr ([''first'', ''No relevant information found in the policy document for this question.''], [7])) \<and>
   trace (init_state\<lparr>trace := [EmbedQuery [], Search]\<rparr> :: string list state) =
     trace (init_state :: string list state) @ [EmbedQuery [], Search]"
proof -
  have h: "retrieve_relevant_chunks demo_env init_state [] [''ab''] [0] 5 =
     (init_state\<lparr>trace := [EmbedQuery [], Search]\<rparr>, Inr [])"
    by (simp add: retrieve_relevant_chunks_def demo_env_def get_embeddings_def trace_call_def
        init_state_def upt_rec [of 0] numeral_eq_Suc)
  from no_chunks_fixed_answer [OF h, of "[''first'']" "[7]"] h show ?thesis by simp
qed

lemma question_step_acc:
  "question_step env index chunks (s, A, S) q =
     (case question_step env index chunks (s, [], []) q of
        (s1, Inl e) \<Rightarrow> (s1, Inl e)
      | (s1, Inr (a, c)) \<Rightarrow> (s1, Inr (A @ a, S @ c)))"
  by (simp add: Let_def split: prod.splits sum.splits)

lemma question_step_one:
  assumes "question_step env index chunks (s, [], []) q = (s1, Inr (a, c))"
  shows "length a = 1"
  using assms by (auto simp: Let_def split: prod.splits sum.splits if_splits)

lemma question_loop_snoc:
  "question_loop env index chunks (s, A, S) (qs @ [q]) =
     (case question_loop env index chunks (s, A, S) qs of
        (s1, Inl e) \<Rightarrow> (s1, Inl e)
      | (s1, Inr (a, c)) \<Rightarrow> question_step env index chunks (s1, a, c) q)"
proof (induction qs arbitrary: s A S)
  case Nil
  show ?case by (simp del: question_step.simps split: prod.splits sum.splits)
next
  case (Cons p ps)
  show ?case
    by (simp del: question_step.simps add: Cons split: prod.splits sum.splits)
qed

lemma question_loop_answers:
  assumes "question_loop env index chunks (s, [], []) qs = (s', Inr (as, cs))"
  shows "length as = length qs \<and>
         (\<forall>i<length qs. step_answer env index chunks (state_before env index chunks s qs i) (qs ! i)
                           = Some (as ! i))"
  using assms
proof (induction qs arbitrary: s' as cs rule: rev_induct)
  case Nil
  then show ?case by simp
next
  case (snoc q qs)
  obtain s1 r1 where l: "question_loop env index chunks (s, [], []) qs = (s1, r1)"
    by (cases "question_loop env index chunks (s, [], []) qs") auto
  from snoc.prems l obtain a1 c1 where r1: "r1 = Inr (a1, c1)"
    and st: "question_step env index chunks (s1, a1, c1) q = (s', Inr (as, cs))"
    by (cases r1) (auto simp: question_loop_snoc simp del: question_step.simps)
  obtain s2 r2 where st0: "question_step env index chunks (s1, [], []) q = (s2, r2)"
    by (cases "question_step env index chunks (s1, [], []) q") auto
  from st st0 obtain a c where r2: "r2 = Inr (a, c)" and as: "as = a1 @ a"
    by (cases r2) (auto simp: question_step_acc [of env index chunks s1 a1 c1] simp del: question_step.simps)
  from question_step_one [OF st0 [unfolded r2]] obtain x where a: "a = [x]"
    by (cases a) auto
  from snoc.IH [OF l [unfolded r1]] have len: "length a1 = length qs"
    and ih: "\<forall>i<length qs. step_answer env index chunks (state_before env index chunks s qs i) (qs ! i) = Some (a1 ! i)"
    by auto
  have "step_answer env index chunks (state_before env index chunks s (qs @ [q]) i) ((qs @ [q]) ! i)
          = Some (as ! i)" if "i < length (qs @ [q])" for i
  proof (cases "i < length qs")
    case True
    with ih len show ?thesis by (simp add: state_before_def nth_append as)
  next
    case False
    with that have i: "i = length qs" by simp
    show ?thesis
      by (simp add: i state_before_def l step_answer_def st0 r2 a as len nth_append
          del: question_step.simps)
  qed
  with len show ?case by (simp add: as a)
qed

text \<open>
  Claim C9. When the handler returns a response for the questions \<open>qs\<close>, the response has
  as many answers as there are questions, and answer number \<open>i\<close> is the answer that the pass
  of the loop for \<open>qs ! i\<close> produced, in the state the loop had reached after the questions
  before it.
\<close>

theorem answers_follow_questions:
  assumes "process_insurance_query env s url qs = (s', Inr resp)"
  shows "length (r_answers resp) = length qs \<and>
         (\<exists>s1 index chunks.
            resolve_document env s url = (s1, Inr (index, chunks)) \<and>
            (\<forall>i<length qs.
               step_answer env index chunks (state_before env index chunks s1 qs i) (qs ! i)
                 = Some (r_answers resp ! i)))"
proof -
  obtain s1 r1 where res: "resolve_document env s url = (s1, r1)"
    by (cases "resolve_document env s url") auto
  from assms res obtain index chunks where r1: "r1 = Inr (index, chunks)"
    by (cases r1) (auto simp: process_insurance_query_def)
  obtain s2 r2 where l: "question_loop env index chunks (s1, [], []) qs = (s2, r2)"
    by (cases "question_loop env index chunks (s1, [], []) qs") auto
  from assms res r1 l obtain as cs where r2: "r2 = Inr (as, cs)" and resp: "r_answers resp = as"
    by (cases r2) (auto simp: process_insurance_query_def)
  from question_loop_answers [OF l [unfolded r2]] res r1 resp show ?thesis by simp
qed

theorem answers_follow_questions_witness:
  "process_insurance_query demo_env init_state ''ab'' [''claim'', ''''] =
     (fst (process_insurance_query demo_env init_state ''ab'' [''claim'', '''']),
      Inr \<lparr>r_answers = [''Claims information can be found in clauses 0.'',
                         ''No relevant information found in the policy document for this question.''],
           r_source_chunks = [\<lparr>c_id = 0, c_text = ''ab'', c_source = ''chunk_0'',
                                similarity_score = None, score = Some 1\<rparr>]\<rparr>) \<and>
   length [''Claims information can be found in clauses 0.'',
           ''No relevant information found in the policy document for this question.'']
     = length [''claim'', ''''] \<and>
   (\<exists>s1 index chunks.
      resolve_document demo_env init_state ''ab'' = (s1, Inr (index, chunks)) \<and>
      step_answer demo_env index chunks (state_before demo_env index chunks s1 [''claim'', ''''] 0) ''claim''
        = Some ''Claims information can be found in clauses 0.'' \<and>
      step_answer demo_env index chunks (state_before demo_env index chunks s1 [''claim'', ''''] 1) ''''
        = Some ''No relevant information found in the policy document for this question.'')"
proof -
  let ?resp = "\<lparr>r_answers = [''Claims information can be found in clauses 0.'',
                         ''No relevant information found in the policy document for this question.''],
           r_source_chunks = [\<lparr>c_id = 0, c_text = ''ab'', c_source = ''chunk_0'',
                                similarity_score = None, score = Some 1\<rparr>]\<rparr>"
  have "snd (process_insurance_query demo_env init_state ''ab'' [''claim'', '''']) = Inr ?resp"
    by code_simp
  then have h: "process_insurance_query demo_env init_state ''ab'' [''claim'', ''''] =
     (fst (process_insurance_query demo_env init_state ''ab'' [''claim'', '''']), Inr ?resp)"
    by (metis prod.collapse)
  from answers_follow_questions [OF h] obtain s1 index chunks where
    r: "resolve_document demo_env init_state ''ab'' = (s1, Inr (index, chunks))"
    and a: "\<forall>i<length [''claim'', ''''].
               step_answer demo_env index chunks (state_before demo_env index chunks s1 [''claim'', ''''] i)
                 ([''claim'', ''''] ! i) = Some (r_answers ?resp ! i)"
    by blast
  from a [rule_format, of 0] a [rule_format, of 1] r h show ?thesis by simp
qed

end
